theory Spec2Isabelle
  imports Complex_Main
begin

section \<open>Strings, escape codes and glyphs (demos/ui.py)\<close>

text \<open>
  A Python \<open>str\<close> is a sequence of Unicode code points, and \<open>len\<close> counts code points.
  The box-drawing glyphs of the module lie outside the 8-bit range, so a string is modelled
  as the list of its code points; \<open>ord c\<close> is the code point itself.
\<close>

type_synonym pystr = "nat list"

definition lit :: "string \<Rightarrow> pystr" where
  "lit s = map of_char s"

definition ord :: "nat \<Rightarrow> int" where
  "ord c = int c"

datatype py_error = ValueError | IndexError | ZeroDivisionError | OverflowError | MemoryError

text \<open>The SGR sequences \<open>"\033[95m"\<close> ... \<open>"\033[0m"\<close> of lines 24-32.\<close>

definition C_PURPLE :: pystr where "C_PURPLE = 27 # lit ''[95m''"
definition C_BLUE :: pystr where "C_BLUE = 27 # lit ''[94m''"
definition C_CYAN :: pystr where "C_CYAN = 27 # lit ''[96m''"
definition C_GREEN :: pystr where "C_GREEN = 27 # lit ''[92m''"
definition C_YELLOW :: pystr where "C_YELLOW = 27 # lit ''[93m''"
definition C_RED :: pystr where "C_RED = 27 # lit ''[91m''"
definition C_BOLD :: pystr where "C_BOLD = 27 # lit ''[1m''"
definition C_DIM :: pystr where "C_DIM = 27 # lit ''[2m''"
definition C_RESET :: pystr where "C_RESET = 27 # lit ''[0m''"

text \<open>The box-drawing characters of lines 41-49, by code point.\<close>

definition BOX_H :: pystr where "BOX_H = [0x2500]"
definition BOX_V :: pystr where "BOX_V = [0x2502]"
definition BOX_TL :: pystr where "BOX_TL = [0x250C]"
definition BOX_TR :: pystr where "BOX_TR = [0x2510]"
definition BOX_BL :: pystr where "BOX_BL = [0x2514]"
definition BOX_BR :: pystr where "BOX_BR = [0x2518]"
definition BOX_LT :: pystr where "BOX_LT = [0x251C]"
definition BOX_RT :: pystr where "BOX_RT = [0x2524]"

text \<open>
  \<open>s * n\<close> on a string and an integer: \<open>n\<close> copies of \<open>s\<close>, and the empty string when
  \<open>n\<close> is zero or negative.
\<close>

definition str_mul :: "pystr \<Rightarrow> int \<Rightarrow> pystr" where
  "str_mul s n = concat (replicate (nat n) s)"

text \<open>\<open>sep.join(items)\<close>.\<close>

fun join :: "pystr \<Rightarrow> pystr list \<Rightarrow> pystr" where
  "join sep [] = []"
| "join sep [x] = x"
| "join sep (x # y # ys) = x @ sep @ join sep (y # ys)"

subsection \<open>strip_ansi (lines 159-168)\<close>

text \<open>
  \<open>re.sub(r"\033\[[0-9;]*m", "", text)\<close> scans the text from the left. At each position it
  tries the pattern: ESC, an opening bracket, the longest run of characters from
  \<open>[0-9;]\<close>, then the letter m. The class excludes m, so backtracking over the run
  cannot produce another match, and the pattern matches at a position exactly when the
  character after the longest run is m. A match is dropped and the scan resumes behind
  it (the replaced text is not scanned again); otherwise the character is copied and the
  scan moves one position on.
\<close>

definition is_param :: "nat \<Rightarrow> bool" where
  "is_param c \<longleftrightarrow> (48 \<le> c \<and> c \<le> 57) \<or> c = 59"

text \<open>The pattern tried at the head of the text; \<open>Some rest\<close> is the text behind the match.\<close>

fun sgr_match :: "pystr \<Rightarrow> pystr option" where
  "sgr_match (e # b # rest) =
     (if e = 27 \<and> b = 91 then
        (case dropWhile is_param rest of
           [] \<Rightarrow> None
         | m # after \<Rightarrow> if m = 109 then Some after else None)
      else None)"
| "sgr_match _ = None"

function strip_ansi :: "pystr \<Rightarrow> pystr" where
  "strip_ansi [] = []"
| "strip_ansi (c # cs) =
     (case sgr_match (c # cs) of
        Some after \<Rightarrow> strip_ansi after
      | None \<Rightarrow> c # strip_ansi cs)"
  by pat_completeness auto
termination
proof (relation "measure length")
  show "wf (measure length)" by simp
next
  fix c :: nat and cs after :: pystr
  assume m: "sgr_match (c # cs) = Some after"
  then obtain b rest where cs: "cs = b # rest"
    by (cases cs) auto
  from m cs obtain k where "dropWhile is_param rest = k # after"
    by (auto split: if_splits list.splits)
  then have "length (k # after) \<le> length rest"
    by (metis length_dropWhile_le)
  with cs show "(after, c # cs) \<in> measure length" by simp
next
  fix c :: nat and cs :: pystr
  show "(cs, c # cs) \<in> measure length" by simp
qed

text \<open>\<open>len(strip_ansi(text))\<close>, the visible length used for padding.\<close>

definition visible_len :: "pystr \<Rightarrow> int" where
  "visible_len text = int (length (strip_ansi text))"

subsection \<open>toy_hash (lines 285-296)\<close>

definition toy_hash :: "pystr \<Rightarrow> int \<Rightarrow> py_error + int" where
  "toy_hash text num_buckets =
     (if num_buckets = 0 then Inl ZeroDivisionError
      else Inr (sum_list [ord c. c \<leftarrow> text] mod num_buckets))"

subsection \<open>draw_box (lines 171-194)\<close>

text \<open>
  \<open>max\<close> over a generator: \<open>ValueError\<close> when it yields nothing, otherwise the first
  largest value met.
\<close>

fun py_max :: "int list \<Rightarrow> py_error + int" where
  "py_max [] = Inl ValueError"
| "py_max (x # xs) = Inr (fold (\<lambda>v best. if best < v then v else best) xs x)"

text \<open>Lines 186-187: \<open>width\<close> is \<open>None\<close> when the caller omits it.\<close>

definition resolve_width :: "pystr list \<Rightarrow> int option \<Rightarrow> py_error + int" where
  "resolve_width content_lines width =
     (case width of
        None \<Rightarrow>
          (case py_max [visible_len line. line \<leftarrow> content_lines] of
             Inl e \<Rightarrow> Inl e
           | Inr m \<Rightarrow> Inr (m + 2))
      | Some w \<Rightarrow> Inr w)"

text \<open>Lines 191-192: what is printed between the two vertical borders of a row.\<close>

definition box_cell :: "int \<Rightarrow> pystr \<Rightarrow> pystr" where
  "box_cell width line =
     (let padding = width - visible_len line
      in line @ str_mul (lit '' '') padding)"

text \<open>Line 193: the printed row.\<close>

definition box_row :: "int \<Rightarrow> pystr \<Rightarrow> pystr \<Rightarrow> pystr" where
  "box_row width color line =
     lit ''    '' @ color @ BOX_V @ C_RESET @ box_cell width line @ color @ BOX_V @ C_RESET"

text \<open>
  The result is the list of printed lines, in order. The only statement that can raise
  is the width resolution, which runs before anything is printed. The caller that omits
  \<open>color\<close> passes \<open>C_CYAN\<close>.
\<close>

definition draw_box :: "pystr list \<Rightarrow> int option \<Rightarrow> pystr \<Rightarrow> py_error + pystr list" where
  "draw_box content_lines width color =
     (case resolve_width content_lines width of
        Inl e \<Rightarrow> Inl e
      | Inr w \<Rightarrow>
          Inr ([lit ''    '' @ color @ BOX_TL @ str_mul BOX_H w @ BOX_TR @ C_RESET]
               @ [box_row w color line. line \<leftarrow> content_lines]
               @ [lit ''    '' @ color @ BOX_BL @ str_mul BOX_H w @ BOX_BR @ C_RESET]))"

subsection \<open>draw_buckets (lines 197-249)\<close>

text \<open>\<open>str(i)\<close> for a non-negative integer: its decimal digits.\<close>

fun str_nat :: "nat \<Rightarrow> pystr" where
  "str_nat n = (if n < 10 then [48 + n] else str_nat (n div 10) @ [48 + n mod 10])"

declare str_nat.simps [simp del]

text \<open>
  The format specification \<open>^w\<close>: the text centred in \<open>w\<close> columns, the left margin
  taking the smaller half; a text of \<open>w\<close> or more characters is left as it is.
\<close>

definition center :: "pystr \<Rightarrow> int \<Rightarrow> pystr" where
  "center s w =
     (let total = w - int (length s)
      in if total \<le> 0 then s
         else (let left = total div 2
               in str_mul (lit '' '') left @ s @ str_mul (lit '' '') (total - left)))"

definition idx_w :: int where "idx_w = 5"
definition content_w :: int where "content_w = 44"

text \<open>Lines 222-229: a list is true when it is not empty.\<close>

definition idx_str :: "pystr list list \<Rightarrow> int option \<Rightarrow> nat \<Rightarrow> pystr" where
  "idx_str buckets highlight_idx i =
     (let idx_color =
            (if Some (int i) = highlight_idx \<and> buckets ! i \<noteq> [] then C_RED
             else if Some (int i) = highlight_idx then C_GREEN
             else C_CYAN)
      in idx_color @ C_BOLD @ center (str_nat i) idx_w @ C_RESET)"

text \<open>Lines 232-240.\<close>

definition content_cell :: "pystr list \<Rightarrow> pystr" where
  "content_cell bucket =
     (let items_str =
            (if bucket \<noteq> [] then join (lit '', '') bucket
             else C_DIM @ lit ''empty'' @ C_RESET);
          pad = content_w - visible_len items_str - 1
      in lit '' '' @ items_str @ str_mul (lit '' '') (max pad 0))"

text \<open>Lines 242-246: the row of bucket \<open>i\<close> and, except after the last, a separator.\<close>

definition bucket_lines :: "pystr list list \<Rightarrow> int option \<Rightarrow> nat \<Rightarrow> pystr list" where
  "bucket_lines buckets highlight_idx i =
     [lit ''    '' @ C_CYAN @ BOX_V @ C_RESET @ idx_str buckets highlight_idx i
        @ C_CYAN @ BOX_V @ C_RESET @ content_cell (buckets ! i) @ C_CYAN @ BOX_V @ C_RESET]
     @ (if int i < int (length buckets) - 1
        then [lit ''    '' @ C_CYAN @ BOX_LT @ str_mul BOX_H idx_w @ [0x253C]
                @ str_mul BOX_H content_w @ BOX_RT @ C_RESET]
        else [])"

text \<open>The loop index runs over \<open>range(num)\<close>, so \<open>buckets[i]\<close> is always in range.\<close>

definition draw_buckets :: "pystr list list \<Rightarrow> int option \<Rightarrow> pystr list" where
  "draw_buckets buckets highlight_idx =
     [lit ''    '' @ C_CYAN @ BOX_TL @ str_mul BOX_H idx_w @ [0x252C]
        @ str_mul BOX_H content_w @ BOX_TR @ C_RESET]
     @ concat (map (bucket_lines buckets highlight_idx) [0..<length buckets])
     @ [lit ''    '' @ C_CYAN @ BOX_BL @ str_mul BOX_H idx_w @ [0x2534]
          @ str_mul BOX_H content_w @ BOX_BR @ C_RESET]"

subsection \<open>progress_bar (lines 256-278)\<close>





















section \<open>The three comparisons of the avalanche demo (demos/avalanche.py, run)\<close>

text \<open>
  \<open>run\<close> prompts for two strings, hashes them with the library's SHA-256 and prints three
  comparisons. Each comparison is modelled as a function of the strings it compares and
  returns the values of the variables the source builds.
\<close>

text \<open>\<open>s.ljust(w)\<close>.\<close>

definition ljust :: "pystr \<Rightarrow> int \<Rightarrow> pystr" where
  "ljust s w = s @ str_mul (lit '' '') (w - int (length s))"

definition dot_mark :: pystr where "dot_mark = C_DIM @ [0xB7] @ C_RESET"

subsection \<open>Part 1, the inputs (lines 98-114)\<close>

definition padded :: "pystr \<Rightarrow> pystr \<Rightarrow> pystr \<times> pystr" where
  "padded in_a in_b =
     (let max_len = max (int (length in_a)) (int (length in_b))
      in (ljust in_a max_len, ljust in_b max_len))"

definition diff_markers :: "pystr \<Rightarrow> pystr \<Rightarrow> pystr" where
  "diff_markers in_a in_b =
     (let (padded_a, padded_b) = padded in_a in_b
      in fold (\<lambda>(ca, cb) markers.
                 if ca = cb then markers @ dot_mark
                 else markers @ C_RED @ C_BOLD @ lit ''^'' @ C_RESET)
              (zip padded_a padded_b) [])"

definition char_diffs :: "pystr \<Rightarrow> pystr \<Rightarrow> int" where
  "char_diffs in_a in_b =
     (let (padded_a, padded_b) = padded in_a in_b;
          char_diffs = sum_list [1. (a, b) \<leftarrow> zip padded_a padded_b, a \<noteq> b]
      in char_diffs + \<bar>int (length in_a) - int (length in_b)\<bar>)"

subsection \<open>Part 2, the hexadecimal digests (lines 137-144)\<close>

text \<open>The pair is \<open>(hex_diff, hex_diffs)\<close> after the loop.\<close>

definition hex_comparison :: "pystr \<Rightarrow> pystr \<Rightarrow> pystr \<times> int" where
  "hex_comparison h_a h_b =
     fold (\<lambda>(ca, cb) (hex_diff, hex_diffs).
             if ca = cb then (hex_diff @ dot_mark, hex_diffs)
             else (hex_diff @ C_RED @ lit ''^'' @ C_RESET, hex_diffs + 1))
          (zip h_a h_b) ([], 0)"

subsection \<open>Part 3, the bits (lines 161-198)\<close>

definition SHOW_BITS :: nat where "SHOW_BITS = 64"

definition bit_diffs_total :: "pystr \<Rightarrow> pystr \<Rightarrow> int" where
  "bit_diffs_total b_a b_b = sum_list [1. (a, b) \<leftarrow> zip b_a b_b, a \<noteq> b]"

text \<open>
  The loop over \<open>range(SHOW_BITS)\<close>, with the state \<open>(colored_a, colored_b, bit_diff_line)\<close>.
  Indexing a bit string beyond its end raises \<open>IndexError\<close>.
\<close>

fun bits_loop ::
  "pystr \<Rightarrow> pystr \<Rightarrow> nat list \<Rightarrow> pystr \<times> pystr \<times> pystr \<Rightarrow> py_error + pystr \<times> pystr \<times> pystr"
where
  "bits_loop b_a b_b [] st = Inr st"
| "bits_loop b_a b_b (i # rest) (colored_a, colored_b, bit_diff_line) =
     (if i < length b_a \<and> i < length b_b then
        (let (colored_a, colored_b, bit_diff_line) =
               (if b_a ! i = b_b ! i
                then (colored_a @ C_DIM @ [b_a ! i] @ C_RESET,
                      colored_b @ C_DIM @ [b_b ! i] @ C_RESET,
                      bit_diff_line @ dot_mark)
                else (colored_a @ C_CYAN @ C_BOLD @ [b_a ! i] @ C_RESET,
                      colored_b @ C_RED @ C_BOLD @ [b_b ! i] @ C_RESET,
                      bit_diff_line @ C_RED @ lit ''^'' @ C_RESET))
         in if (i + 1) mod 8 = 0 \<and> int i < int SHOW_BITS - 1
            then bits_loop b_a b_b rest
                   (colored_a @ lit '' '', colored_b @ lit '' '', bit_diff_line @ lit '' '')
            else bits_loop b_a b_b rest (colored_a, colored_b, bit_diff_line))
      else Inl IndexError)"

text \<open>
  \<open>str\<close> of an integer, and the format \<open>.0f\<close> of a non-negative value: the nearest
  integer, a tie going to the even one. The percentage is \<open>n / 256 * 100\<close>; both float
  operations are exact for every count that can occur, so the rational is the float.
\<close>

definition str_int :: "int \<Rightarrow> pystr" where
  "str_int i = (if i < 0 then 45 # str_nat (nat (- i)) else str_nat (nat i))"

definition round_half_even :: "rat \<Rightarrow> int" where
  "round_half_even x =
     (let f = \<lfloor>x\<rfloor>; d = x - of_int f
      in if d < 1 / 2 then f
         else if 1 / 2 < d then f + 1
         else if even f then f else f + 1)"

definition info :: "pystr \<Rightarrow> pystr" where
  "info text = lit ''    '' @ C_DIM @ text @ C_RESET"

record binary_view =
  colored_a :: pystr
  colored_b :: pystr
  bit_diff_line :: pystr
  diffs_total :: int
  summary :: pystr

definition binary_comparison :: "pystr \<Rightarrow> pystr \<Rightarrow> py_error + binary_view" where
  "binary_comparison b_a b_b =
     (let total = bit_diffs_total b_a b_b
      in case bits_loop b_a b_b [0..<SHOW_BITS] ([], [], []) of
           Inl e \<Rightarrow> Inl e
         | Inr (ca, cb, line) \<Rightarrow>
             (let pct = of_int total / 256 * 100
              in Inr \<lparr>colored_a = ca, colored_b = cb, bit_diff_line = line,
                      diffs_total = total,
                      summary = info (str_int total @ lit '' of 256 total bits flipped (''
                                      @ str_int (round_half_even pct) @ lit ''%).'')\<rparr>))"

section \<open>Notions of the specification\<close>

subsection \<open>The SGR pattern\<close>

text \<open>
  The text the pattern \<open>ESC [ (digits or semicolons) m\<close> matches, for a run \<open>p\<close> of
  digits and semicolons.
\<close>

definition sgr :: "pystr \<Rightarrow> pystr" where
  "sgr p = 27 # 91 # p @ [109]"

text \<open>
  Substitution of the empty string for the pattern, stated from the pattern alone:
  scanning from the left, a match at the current position is removed and the scan goes
  on behind it; a character at which no match begins is retained.
\<close>

inductive sub_sgr :: "pystr \<Rightarrow> pystr \<Rightarrow> bool" where
  finished: "sub_sgr [] []"
| removed: "list_all is_param p \<Longrightarrow> sub_sgr rest out \<Longrightarrow> sub_sgr (sgr p @ rest) out"
| retained: "(\<forall>p rest. list_all is_param p \<longrightarrow> c # cs \<noteq> sgr p @ rest) \<Longrightarrow> sub_sgr cs out
     \<Longrightarrow> sub_sgr (c # cs) (c # out)"

text \<open>A character that cannot continue an SGR sequence begun before it.\<close>

definition breaker :: "nat \<Rightarrow> bool" where
  "breaker c \<longleftrightarrow> \<not> is_param c \<and> c \<noteq> 91 \<and> c \<noteq> 109"

subsection \<open>StyledText\<close>

text \<open>
  The specification's StyledText: a sequence of segments, each a visible span or a style
  marker. In the program a styled text is the string \<open>raw\<close>, in which a style marker is an
  SGR sequence; \<open>plain\<close> is the visible content, the visible spans in order.
\<close>

datatype segment = Span pystr | Style pystr

fun raw :: "segment list \<Rightarrow> pystr" where
  "raw [] = []"
| "raw (Span t # segs) = t @ raw segs"
| "raw (Style p # segs) = sgr p @ raw segs"

fun plain :: "segment list \<Rightarrow> pystr" where
  "plain [] = []"
| "plain (Span t # segs) = t @ plain segs"
| "plain (Style p # segs) = plain segs"

text \<open>Every style marker is an SGR sequence.\<close>

fun styled :: "segment list \<Rightarrow> bool" where
  "styled [] \<longleftrightarrow> True"
| "styled (Span t # segs) \<longleftrightarrow> styled segs"
| "styled (Style p # segs) \<longleftrightarrow> list_all is_param p \<and> styled segs"

text \<open>
  The visible content does not itself spell an SGR sequence: no part of it could be
  taken for a style marker.
\<close>

definition sgr_free :: "pystr \<Rightarrow> bool" where
  "sgr_free t \<longleftrightarrow> (\<forall>u p v. list_all is_param p \<longrightarrow> t \<noteq> u @ sgr p @ v)"

subsection \<open>The mismatch count of the character comparison, as specified\<close>

text \<open>
  The positions of the common prefix at which the two strings differ, plus the
  difference of the lengths.
\<close>

definition spec_char_diffs :: "pystr \<Rightarrow> pystr \<Rightarrow> int" where
  "spec_char_diffs a b =
     int (length [i \<leftarrow> [0..<min (length a) (length b)]. a ! i \<noteq> b ! i])
       + \<bar>int (length a) - int (length b)\<bar>"

subsection \<open>The marker of one compared pair\<close>

text \<open>What the loop of the hexadecimal comparison appends to \<open>hex_diff\<close> for one pair.\<close>

definition mark :: "nat \<times> nat \<Rightarrow> pystr" where
  "mark = (\<lambda>(ca, cb). if ca = cb then dot_mark else C_RED @ lit ''^'' @ C_RESET)"

subsection \<open>The marker of one compared bit\<close>

text \<open>
  What one iteration of the loop over the bits appends to \<open>bit_diff_line\<close>: the marker of
  the position and, after every eighth position but the last, a space.
\<close>

definition gap :: "nat \<Rightarrow> pystr" where
  "gap i = (if (i + 1) mod 8 = 0 \<and> int i < int SHOW_BITS - 1 then lit '' '' else [])"

definition bit_mark :: "pystr \<Rightarrow> pystr \<Rightarrow> nat \<Rightarrow> pystr" where
  "bit_mark b_a b_b i =
     (if b_a ! i = b_b ! i then dot_mark else C_RED @ lit ''^'' @ C_RESET) @ gap i"

section \<open>Properties of strip_ansi\<close>

lemma not_param_m: "\<not> is_param 109"
  by (simp add: is_param_def)

lemma dropWhile_params: "list_all is_param p \<Longrightarrow> dropWhile is_param (p @ 109 # rest) = 109 # rest"
  by (induction p) (simp_all add: not_param_m)

lemma sgr_match_sgr: "list_all is_param p \<Longrightarrow> sgr_match (sgr p @ rest) = Some rest"
  by (simp add: sgr_def dropWhile_params)

lemma sgr_match_SomeD:
  assumes "sgr_match s = Some after"
  shows "\<exists>p. list_all is_param p \<and> s = sgr p @ after"
proof -
  from assms obtain e b rest where s: "s = e # b # rest"
    by (cases s rule: sgr_match.cases) auto
  from assms s have eb: "e = 27" "b = 91" and d: "dropWhile is_param rest = 109 # after"
    by (auto split: if_splits list.splits)
  have "rest = takeWhile is_param rest @ 109 # after"
    using d takeWhile_dropWhile_id [of is_param rest] by simp
  moreover have "list_all is_param (takeWhile is_param rest)"
    by (simp add: list_all_iff) (meson set_takeWhileD)
  ultimately show ?thesis
    using s eb by (intro exI [of _ "takeWhile is_param rest"]) (simp add: sgr_def)
qed

lemma sgr_match_None_iff:
  "sgr_match s = None \<longleftrightarrow> (\<forall>p rest. list_all is_param p \<longrightarrow> s \<noteq> sgr p @ rest)"
proof
  assume n: "sgr_match s = None"
  show "\<forall>p rest. list_all is_param p \<longrightarrow> s \<noteq> sgr p @ rest"
  proof (intro allI impI notI)
    fix p rest assume "list_all is_param p" "s = sgr p @ rest"
    then have "sgr_match s = Some rest" by (simp add: sgr_match_sgr)
    with n show False by simp
  qed
next
  assume a: "\<forall>p rest. list_all is_param p \<longrightarrow> s \<noteq> sgr p @ rest"
  show "sgr_match s = None"
  proof (cases "sgr_match s")
    case None
    then show ?thesis .
  next
    case (Some after)
    from sgr_match_SomeD [OF Some] a show ?thesis by blast
  qed
qed

lemma strip_ansi_sgr: "list_all is_param p \<Longrightarrow> strip_ansi (sgr p @ rest) = strip_ansi rest"
proof -
  assume p: "list_all is_param p"
  have "sgr p @ rest = 27 # (91 # p @ [109]) @ rest" by (simp add: sgr_def)
  then have "strip_ansi (sgr p @ rest) =
      (case sgr_match (sgr p @ rest) of Some after \<Rightarrow> strip_ansi after
       | None \<Rightarrow> 27 # strip_ansi ((91 # p @ [109]) @ rest))"
    by (simp only: strip_ansi.simps)
  then show ?thesis by (simp add: sgr_match_sgr [OF p])
qed

lemma strip_ansi_keep: "sgr_match (c # cs) = None \<Longrightarrow> strip_ansi (c # cs) = c # strip_ansi cs"
  by simp

lemma sub_sgr_strip: "sub_sgr s (strip_ansi s)"
proof (induction s rule: strip_ansi.induct)
  case 1
  show ?case by (simp add: sub_sgr.finished)
next
  case (2 c cs)
  show ?case
  proof (cases "sgr_match (c # cs)")
    case None
    then have "\<forall>p rest. list_all is_param p \<longrightarrow> c # cs \<noteq> sgr p @ rest"
      by (simp only: sgr_match_None_iff)
    moreover have "sub_sgr cs (strip_ansi cs)" using 2 None by blast
    ultimately have "sub_sgr (c # cs) (c # strip_ansi cs)" by (rule sub_sgr.retained)
    with None show ?thesis by simp
  next
    case (Some after)
    then obtain p where p: "list_all is_param p" "c # cs = sgr p @ after"
      using sgr_match_SomeD by blast
    have "sub_sgr after (strip_ansi after)" using 2 Some by blast
    with p(1) have "sub_sgr (sgr p @ after) (strip_ansi after)" by (rule sub_sgr.removed)
    moreover have "strip_ansi (c # cs) = strip_ansi after" using Some by simp
    ultimately show ?thesis using p(2) by simp
  qed
qed

lemma sub_sgr_unique: "sub_sgr s out \<Longrightarrow> strip_ansi s = out"
proof (induction rule: sub_sgr.induct)
  case finished
  show ?case by simp
next
  case (removed p rest out)
  then show ?case by (simp add: strip_ansi_sgr)
next
  case (retained c cs out)
  from retained(1) have "sgr_match (c # cs) = None" by (simp only: sgr_match_None_iff)
  with retained show ?case by simp
qed


lemma sgr_match_append_Some:
  "sgr_match s = Some after \<Longrightarrow> sgr_match (s @ rest) = Some (after @ rest)"
proof -
  assume a: "sgr_match s = Some after"
  then obtain p where "list_all is_param p" "s = sgr p @ after"
    using sgr_match_SomeD by blast
  then show ?thesis using sgr_match_sgr [of p "after @ rest"] by simp
qed

lemma dropWhile_all: "list_all P xs \<Longrightarrow> dropWhile P (xs @ ys) = dropWhile P ys"
  by (induction xs) simp_all

lemma sgr_match_append_None:
  assumes n: "sgr_match s = None" and s: "s \<noteq> []" and r: "rest = [] \<or> breaker (hd rest)"
  shows "sgr_match (s @ rest) = None"
proof (cases rest)
  case Nil
  with n show ?thesis by simp
next
  case (Cons h t)
  with r have h: "\<not> is_param h" "h \<noteq> 91" "h \<noteq> 109" by (simp_all add: breaker_def)
  from s obtain e cs where secs: "s = e # cs" by (cases s) auto
  show ?thesis
  proof (cases cs)
    case Nil
    with secs Cons h show ?thesis by simp
  next
    case (Cons b body)
    note cs = this
    show ?thesis
    proof (cases "e = 27 \<and> b = 91")
      case False
      with secs cs show ?thesis by auto
    next
      case True
      show ?thesis
      proof (cases "dropWhile is_param body")
        case Nil
        then have "list_all is_param body"
          by (metis dropWhile_eq_Nil_conv list_all_iff)
        then have "dropWhile is_param (body @ rest) = h # t"
          using h(1) \<open>rest = h # t\<close> by (simp add: dropWhile_all)
        with secs cs True h show ?thesis by simp
      next
        case (Cons m after)
        then have "dropWhile is_param (body @ rest) = m # after @ rest"
          by (metis append_Cons dropWhile_append1 dropWhile_eq_Nil_conv list.distinct(1) dropWhile_append)
        moreover from n secs cs True Cons have "m \<noteq> 109" by (auto split: if_splits)
        ultimately show ?thesis using secs cs True by simp
      qed
    qed
  qed
qed

lemma strip_ansi_append:
  "rest = [] \<or> breaker (hd rest) \<Longrightarrow> strip_ansi (s @ rest) = strip_ansi s @ strip_ansi rest"
proof (induction s rule: strip_ansi.induct)
  case 1
  show ?case by simp
next
  case (2 c cs)
  show ?case
  proof (cases "sgr_match (c # cs)")
    case None
    then have "sgr_match ((c # cs) @ rest) = None"
      using 2(3) by (intro sgr_match_append_None) simp_all
    then have "strip_ansi ((c # cs) @ rest) = c # strip_ansi (cs @ rest)" by simp
    moreover have "strip_ansi (cs @ rest) = strip_ansi cs @ strip_ansi rest"
      using 2 None by blast
    ultimately show ?thesis using None by simp
  next
    case (Some after)
    then have "sgr_match ((c # cs) @ rest) = Some (after @ rest)"
      by (rule sgr_match_append_Some)
    then have "strip_ansi ((c # cs) @ rest) = strip_ansi (after @ rest)" by simp
    moreover have "strip_ansi (after @ rest) = strip_ansi after @ strip_ansi rest"
      using 2 Some by blast
    ultimately show ?thesis using Some by simp
  qed
qed

lemma sgr_match_not_ESC: "c \<noteq> 27 \<Longrightarrow> sgr_match (c # cs) = None"
  by (cases cs) simp_all

lemma strip_ansi_not_ESC: "c \<noteq> 27 \<Longrightarrow> strip_ansi (c # cs) = c # strip_ansi cs"
  by (simp add: sgr_match_not_ESC)

lemma strip_ansi_spaces: "strip_ansi (replicate n 32) = replicate n 32"
  by (induction n) (simp_all add: sgr_match_not_ESC)

lemma str_mul_space: "str_mul (lit '' '') k = replicate (nat k) 32"
  by (simp add: str_mul_def lit_def)



lemma sgr_free_Cons: "sgr_free (c # cs) \<Longrightarrow> sgr_free cs"
  unfolding sgr_free_def by (metis append_Cons)

lemma sgr_free_append_right: "sgr_free (u @ v) \<Longrightarrow> sgr_free v"
  by (induction u) (auto dest: sgr_free_Cons)

lemma sgr_free_append_left: "sgr_free (u @ v) \<Longrightarrow> sgr_free u"
  unfolding sgr_free_def by (metis append_assoc)

lemma sgr_free_no_match: "sgr_free (c # cs) \<Longrightarrow> sgr_match (c # cs) = None"
  unfolding sgr_free_def sgr_match_None_iff by (metis append_Nil)

lemma strip_ansi_sgr_free: "sgr_free t \<Longrightarrow> strip_ansi t = t"
proof (induction t)
  case Nil
  show ?case by simp
next
  case (Cons c cs)
  then show ?case
    by (simp add: sgr_free_no_match sgr_free_Cons)
qed

lemma no_ESC_sgr_free: "27 \<notin> set t \<Longrightarrow> sgr_free t"
  unfolding sgr_free_def sgr_def by auto

lemma breaker_ESC: "breaker 27"
  by (simp add: breaker_def is_param_def)

lemma breaker_space: "breaker 32"
  by (simp add: breaker_def is_param_def)

lemma strip_ansi_raw:
  "styled s \<Longrightarrow> sgr_free (u @ plain s) \<Longrightarrow> strip_ansi (u @ raw s) = u @ plain s"
proof (induction s arbitrary: u rule: raw.induct)
  case 1
  then show ?case by (simp add: strip_ansi_sgr_free)
next
  case (2 t segs)
  from 2(1) [of "u @ t"] 2(2,3) show ?case by simp
next
  case (3 p segs)
  have "strip_ansi (u @ sgr p @ raw segs) = strip_ansi u @ strip_ansi (sgr p @ raw segs)"
    by (rule strip_ansi_append) (simp add: sgr_def breaker_ESC)
  also have "strip_ansi u = u"
    using 3(3) by (simp add: strip_ansi_sgr_free sgr_free_append_left)
  also have "strip_ansi (sgr p @ raw segs) = strip_ansi ([] @ raw segs)"
    using 3(2) by (simp add: strip_ansi_sgr)
  also have "\<dots> = [] @ plain segs"
    using 3(2,3) by (intro 3(1)) (simp_all add: sgr_free_append_right)
  finally show ?case by simp
qed

section \<open>The claims\<close>

text \<open>
  Claim C6. The visible width is a non-negative function of the visible content only.
  Let \<open>s\<close> and \<open>s'\<close> be styled texts whose style markers are SGR sequences and which have
  the same visible content, so that one arises from the other by inserting and removing
  style markers between and inside the visible spans; the visible content holds no SGR
  sequence of its own, being visible. Then the strings of \<open>s\<close> and \<open>s'\<close> have the same
  visible width, which is the number of characters of the visible content and is not
  negative; the empty string has width 0. The function is a HOL function: the same
  input gives the same output, and no input is changed.
\<close>

theorem visible_width_counts_spans:
  assumes "styled s" and "styled s'" and "plain s = plain s'" and "sgr_free (plain s)"
  shows "visible_len (raw s) = visible_len (raw s')
         \<and> visible_len (raw s) = int (length (plain s))
         \<and> 0 \<le> visible_len (raw s)
         \<and> visible_len [] = 0"
proof -
  have "strip_ansi ([] @ raw s) = [] @ plain s"
    using assms(1,4) by (intro strip_ansi_raw) simp_all
  moreover have "strip_ansi ([] @ raw s') = [] @ plain s'"
    using assms(2,3,4) by (intro strip_ansi_raw) simp_all
  ultimately show ?thesis
    using assms(3) by (simp add: visible_len_def)
qed

theorem visible_width_counts_spans_witness:
  "visible_len (lit ''empty'') = visible_len (C_DIM @ lit ''em'' @ C_BOLD @ lit ''pty'' @ C_RESET)
   \<and> visible_len (lit ''empty'') = 5"
proof -
  let ?s = "[Span (lit ''empty'')]"
  let ?s' = "[Style (lit ''2''), Span (lit ''em''), Style (lit ''1''), Span (lit ''pty''), Style (lit ''0'')]"
  have 1: "styled ?s" by simp
  have 2: "styled ?s'" by (simp add: lit_def is_param_def)
  have 3: "plain ?s = plain ?s'" by (simp add: lit_def)
  have 4: "sgr_free (plain ?s)" by (rule no_ESC_sgr_free) (simp add: lit_def)
  from visible_width_counts_spans [OF 1 2 3 4] show ?thesis
    by (simp add: sgr_def C_DIM_def C_BOLD_def C_RESET_def lit_def)
qed

text \<open>
  Claim C10. \<open>strip_ansi\<close> removes exactly the matches of the SGR pattern: its result is
  the one that substitution for the pattern, stated from the pattern alone, relates to
  the text. Anything else stays: a bare ESC, and a cursor-movement sequence such as
  \<open>ESC [ 2 A\<close>, which then counts towards the visible width (4 columns here, though the
  terminal shows none) and so towards the padding \<open>draw_box\<close> computes.
\<close>

theorem strip_ansi_removes_sgr_only:
  "(sub_sgr s out \<longleftrightarrow> strip_ansi s = out)
   \<and> strip_ansi [27] = [27]
   \<and> strip_ansi (27 # lit ''[2A'') = 27 # lit ''[2A''
   \<and> visible_len (27 # lit ''[2A'' @ lit ''ab'') = 6
   \<and> box_cell 10 (27 # lit ''[2A'' @ lit ''ab'') = 27 # lit ''[2A'' @ lit ''ab'' @ replicate 4 32"
proof -
  have "sub_sgr s out \<longleftrightarrow> strip_ansi s = out"
    using sub_sgr_strip sub_sgr_unique by blast
  moreover have "strip_ansi [27] = [27]" by simp
  moreover have c: "strip_ansi (27 # lit ''[2A'') = 27 # lit ''[2A''"
    by (simp add: lit_def is_param_def)
  moreover have v: "visible_len (27 # lit ''[2A'' @ lit ''ab'') = 6"
    by (simp add: visible_len_def lit_def is_param_def)
  moreover have "box_cell 10 (27 # lit ''[2A'' @ lit ''ab'') = 27 # lit ''[2A'' @ lit ''ab'' @ replicate 4 32"
    unfolding box_cell_def using v by (simp add: str_mul_space Let_def eval_nat_numeral)
  ultimately show ?thesis by blast
qed

theorem strip_ansi_removes_sgr_only_witness:
  "sub_sgr (C_RED @ lit ''^'' @ C_RESET) (lit ''^'')"
proof -
  have "strip_ansi (C_RED @ lit ''^'' @ C_RESET) = lit ''^''"
    by (simp add: C_RED_def C_RESET_def lit_def is_param_def)
  with strip_ansi_removes_sgr_only [of "C_RED @ lit ''^'' @ C_RESET" "lit ''^''"]
  show ?thesis by blast
qed


text \<open>
  Claim C9. For every string and every \<open>num_buckets\<close> of at least 1, \<open>toy_hash\<close> returns
  the sum of the code points of the string modulo \<open>num_buckets\<close>, a value from 0 up to
  but excluding \<open>num_buckets\<close>. Being a function of its two arguments, it gives the same
  output for the same input.
\<close>

theorem toy_hash_sum_mod:
  assumes "1 \<le> num_buckets"
  shows "\<exists>r. toy_hash text num_buckets = Inr r
             \<and> r = (\<Sum>i<length text. int (text ! i)) mod num_buckets
             \<and> 0 \<le> r \<and> r < num_buckets"
proof -
  have "sum_list (map ord text) = (\<Sum>i<length text. int (text ! i))"
    by (simp add: sum_list_sum_nth ord_def atLeast0LessThan)
  then show ?thesis using assms by (simp add: toy_hash_def)
qed

theorem toy_hash_sum_mod_witness:
  "toy_hash (lit ''Cat'') 8 = Inr 0"
proof -
  have "(1::int) \<le> 8" by simp
  from toy_hash_sum_mod [OF this, of "lit ''Cat''"] show ?thesis
    by (simp add: lit_def lessThan_Suc eval_nat_numeral)
qed

lemma py_max_Max: "xs \<noteq> [] \<Longrightarrow> py_max xs = Inr (Max (set xs))"
proof -
  assume "xs \<noteq> []"
  then obtain x rest where xs: "xs = x # rest" by (cases xs) auto
  have f: "(\<lambda>v best. if best < v then v else best) = (max :: int \<Rightarrow> int \<Rightarrow> int)"
    by (auto simp: fun_eq_iff max_def)
  show ?thesis unfolding xs py_max.simps f by (simp only: Max.set_eq_fold)
qed

lemma resolve_width_auto:
  "content_lines \<noteq> [] \<Longrightarrow>
     resolve_width content_lines None = Inr (Max (visible_len ` set content_lines) + 2)"
  by (simp add: resolve_width_def py_max_Max)

text \<open>
  Claim C2, as stated, fails: with no lines and no width, the maximum over no lines
  raises \<open>ValueError\<close>; the width is not resolved to 2 and nothing is printed.
\<close>

theorem draw_box_empty_counterexample:
  "draw_box [] None C_CYAN = Inl ValueError \<and> resolve_width [] None \<noteq> Inr 2"
  by (simp add: draw_box_def resolve_width_def)

text \<open>
  Claim C2, amended. \<open>draw_box\<close> never raises when there is at least one line or a width
  is given. With the width omitted and at least one line, the width is the largest
  visible line width plus 2. With no lines and a given width it prints just the top and
  the bottom border. With no lines and no width it raises \<open>ValueError\<close>.
\<close>

theorem draw_box_raises_only_without_lines_and_width:
  "(content_lines \<noteq> [] \<or> width \<noteq> None \<longrightarrow>
      (\<exists>printed. draw_box content_lines width color = Inr printed))
   \<and> (content_lines \<noteq> [] \<longrightarrow>
        resolve_width content_lines None = Inr (Max (visible_len ` set content_lines) + 2))
   \<and> draw_box [] None color = Inl ValueError
   \<and> draw_box [] (Some w) color =
        Inr [lit ''    '' @ color @ BOX_TL @ str_mul BOX_H w @ BOX_TR @ C_RESET,
             lit ''    '' @ color @ BOX_BL @ str_mul BOX_H w @ BOX_BR @ C_RESET]"
proof -
  have "\<exists>printed. draw_box content_lines width color = Inr printed"
    if "content_lines \<noteq> [] \<or> width \<noteq> None"
  proof (cases width)
    case None
    with that have "content_lines \<noteq> []" by simp
    then show ?thesis using None by (simp add: draw_box_def resolve_width_auto)
  next
    case (Some v)
    then show ?thesis by (simp add: draw_box_def resolve_width_def)
  qed
  moreover have "draw_box [] None color = Inl ValueError"
    by (simp add: draw_box_def resolve_width_def)
  moreover have "draw_box [] (Some w) color =
        Inr [lit ''    '' @ color @ BOX_TL @ str_mul BOX_H w @ BOX_TR @ C_RESET,
             lit ''    '' @ color @ BOX_BL @ str_mul BOX_H w @ BOX_BR @ C_RESET]"
    by (simp add: draw_box_def resolve_width_def)
  ultimately show ?thesis using resolve_width_auto by blast
qed

theorem draw_box_raises_only_without_lines_and_width_witness:
  "(\<exists>printed. draw_box [lit ''ab'', C_RED @ lit ''abcd'' @ C_RESET] None C_CYAN = Inr printed)
   \<and> resolve_width [lit ''ab'', C_RED @ lit ''abcd'' @ C_RESET] None = Inr 6"
proof -
  have v: "visible_len (lit ''ab'') = 2" "visible_len (C_RED @ lit ''abcd'' @ C_RESET) = 4"
    by (simp_all add: visible_len_def lit_def C_RED_def C_RESET_def is_param_def)
  from draw_box_raises_only_without_lines_and_width
         [of "[lit ''ab'', C_RED @ lit ''abcd'' @ C_RESET]" None C_CYAN]
  show ?thesis by (simp add: v)
qed


lemma strip_ansi_C_RESET: "strip_ansi (C_RESET @ rest) = strip_ansi rest"
proof -
  have "C_RESET = sgr (lit ''0'')" by (simp add: C_RESET_def sgr_def lit_def)
  moreover have "list_all is_param (lit ''0'')" by (simp add: lit_def is_param_def)
  ultimately show ?thesis by (metis strip_ansi_sgr)
qed

lemma strip_ansi_C_DIM: "strip_ansi (C_DIM @ rest) = strip_ansi rest"
proof -
  have "C_DIM = sgr (lit ''2'')" by (simp add: C_DIM_def sgr_def lit_def)
  moreover have "list_all is_param (lit ''2'')" by (simp add: lit_def is_param_def)
  ultimately show ?thesis by (metis strip_ansi_sgr)
qed

lemma box_cell_padding:
  "box_cell w line = line @ replicate (nat (w - visible_len line)) 32"
  by (simp add: box_cell_def str_mul_space)

lemma strip_ansi_padded:
  "strip_ansi (line @ replicate n 32) = strip_ansi line @ replicate n 32"
proof -
  have "replicate n 32 = [] \<or> breaker (hd (replicate n (32::nat)))"
    by (cases n) (simp_all add: breaker_space)
  then show ?thesis by (simp add: strip_ansi_append strip_ansi_spaces)
qed

lemma visible_len_box_cell:
  "visible_len (box_cell w line) = visible_len line + int (nat (w - visible_len line))"
  by (simp add: box_cell_padding strip_ansi_padded visible_len_def)

lemma visible_len_box_row:
  assumes "list_all is_param p"
  shows "visible_len (box_row w (sgr p) line) = visible_len (box_cell w line) + 6"
proof -
  have tail: "strip_ansi (sgr p @ BOX_V @ C_RESET) = BOX_V"
    using assms strip_ansi_C_RESET [of "[]"]
    by (simp add: strip_ansi_sgr BOX_V_def sgr_match_not_ESC)
  have "strip_ansi (box_cell w line @ sgr p @ BOX_V @ C_RESET)
          = strip_ansi (box_cell w line) @ strip_ansi (sgr p @ BOX_V @ C_RESET)"
    by (rule strip_ansi_append) (simp add: sgr_def breaker_ESC)
  then have "strip_ansi (sgr p @ BOX_V @ C_RESET @ box_cell w line @ sgr p @ BOX_V @ C_RESET)
          = BOX_V @ strip_ansi (box_cell w line) @ BOX_V"
    using assms tail by (simp add: strip_ansi_sgr BOX_V_def sgr_match_not_ESC strip_ansi_C_RESET)
  then have "strip_ansi (box_row w (sgr p) line)
          = lit ''    '' @ BOX_V @ strip_ansi (box_cell w line) @ BOX_V"
    by (simp add: box_row_def lit_def sgr_match_not_ESC)
  then show ?thesis by (simp add: visible_len_def lit_def BOX_V_def)
qed

lemma box_row_explicit:
  "box_row w color line =
     lit ''    '' @ color @ BOX_V @ C_RESET @ line
       @ replicate (nat (w - visible_len line)) 32 @ color @ BOX_V @ C_RESET"
  by (simp add: box_row_def box_cell_padding)

text \<open>
  Claim C7. Let \<open>w\<close> be the resolved width of a call of \<open>draw_box\<close> whose border colour
  is an SGR sequence. The call prints the top border, one row per line and the bottom
  border. Every row is the indentation, the left border, the line itself, plain spaces
  and the right border; the spaces are \<open>w\<close> less the visible width of the line, and none
  when that is negative. For a line no wider than \<open>w\<close>, visible width plus padding is
  \<open>w\<close>, the line with its padding has visible width \<open>w\<close>, and the printed row has visible
  width \<open>w\<close> and the four columns of indentation and two of border: the same for every
  such row. A line visibly wider than \<open>w\<close> is printed whole and unpadded between the
  borders.
\<close>

theorem draw_box_rows_fill_width:
  assumes w: "resolve_width content_lines width = Inr w"
    and color: "list_all is_param p"
  shows "\<exists>printed. draw_box content_lines width (sgr p) = Inr printed
           \<and> length printed = length content_lines + 2
           \<and> printed ! 0 = lit ''    '' @ sgr p @ BOX_TL @ str_mul BOX_H w @ BOX_TR @ C_RESET
           \<and> printed ! (length content_lines + 1)
                = lit ''    '' @ sgr p @ BOX_BL @ str_mul BOX_H w @ BOX_BR @ C_RESET
           \<and> (\<forall>i < length content_lines.
                 printed ! (i + 1)
                   = lit ''    '' @ sgr p @ BOX_V @ C_RESET @ content_lines ! i
                       @ replicate (nat (w - visible_len (content_lines ! i))) 32
                       @ sgr p @ BOX_V @ C_RESET
               \<and> (visible_len (content_lines ! i) \<le> w \<longrightarrow>
                     visible_len (content_lines ! i)
                       + int (nat (w - visible_len (content_lines ! i))) = w
                   \<and> visible_len (content_lines ! i
                         @ replicate (nat (w - visible_len (content_lines ! i))) 32) = w
                   \<and> visible_len (printed ! (i + 1)) = w + 6)
               \<and> (w < visible_len (content_lines ! i) \<longrightarrow>
                     printed ! (i + 1)
                       = lit ''    '' @ sgr p @ BOX_V @ C_RESET @ content_lines ! i
                           @ sgr p @ BOX_V @ C_RESET))"
proof -
  let ?top = "lit ''    '' @ sgr p @ BOX_TL @ str_mul BOX_H w @ BOX_TR @ C_RESET"
  let ?bottom = "lit ''    '' @ sgr p @ BOX_BL @ str_mul BOX_H w @ BOX_BR @ C_RESET"
  let ?printed = "?top # map (box_row w (sgr p)) content_lines @ [?bottom]"
  let ?pad = "\<lambda>i. replicate (nat (w - visible_len (content_lines ! i))) (32::nat)"
  let ?row = "\<lambda>i. lit ''    '' @ sgr p @ BOX_V @ C_RESET @ content_lines ! i
                       @ ?pad i @ sgr p @ BOX_V @ C_RESET"
  have d: "draw_box content_lines width (sgr p) = Inr ?printed"
    using w by (simp add: draw_box_def)
  have len: "length ?printed = length content_lines + 2" by simp
  have top: "?printed ! 0 = ?top" by simp
  have bottom: "?printed ! (length content_lines + 1) = ?bottom"
    by (simp add: nth_append)
  have rows: "?printed ! (i + 1) = ?row i" if "i < length content_lines" for i
    using that by (simp add: nth_append box_row_explicit)
  have fits: "visible_len (content_lines ! i) + int (nat (w - visible_len (content_lines ! i))) = w
      \<and> visible_len (content_lines ! i @ ?pad i) = w
      \<and> visible_len (?printed ! (i + 1)) = w + 6"
    if i: "i < length content_lines" and f: "visible_len (content_lines ! i) \<le> w" for i
  proof -
    have c: "visible_len (box_cell w (content_lines ! i)) = w"
      using f by (simp add: visible_len_box_cell)
    have "?printed ! (i + 1) = box_row w (sgr p) (content_lines ! i)"
      using i by (simp add: nth_append)
    then have "visible_len (?printed ! (i + 1)) = w + 6"
      using color c by (simp only: visible_len_box_row)
    moreover have "visible_len (content_lines ! i @ ?pad i) = w"
      using c by (simp only: box_cell_padding)
    moreover have "visible_len (content_lines ! i) + int (nat (w - visible_len (content_lines ! i))) = w"
      using f by simp
    ultimately show ?thesis by (intro conjI)
  qed
  have wide: "?printed ! (i + 1)
                = lit ''    '' @ sgr p @ BOX_V @ C_RESET @ content_lines ! i @ sgr p @ BOX_V @ C_RESET"
    if i: "i < length content_lines" and f: "w < visible_len (content_lines ! i)" for i
  proof -
    from f have "?pad i = []" by simp
    with rows [OF i] show ?thesis by (simp only: append_Nil)
  qed
  have each: "\<forall>i < length content_lines.
                 ?printed ! (i + 1) = ?row i
               \<and> (visible_len (content_lines ! i) \<le> w \<longrightarrow>
                     visible_len (content_lines ! i)
                       + int (nat (w - visible_len (content_lines ! i))) = w
                   \<and> visible_len (content_lines ! i @ ?pad i) = w
                   \<and> visible_len (?printed ! (i + 1)) = w + 6)
               \<and> (w < visible_len (content_lines ! i) \<longrightarrow>
                     ?printed ! (i + 1)
                       = lit ''    '' @ sgr p @ BOX_V @ C_RESET @ content_lines ! i
                           @ sgr p @ BOX_V @ C_RESET)"
  proof (intro allI impI)
    fix i assume i: "i < length content_lines"
    have a: "?printed ! (i + 1) = ?row i" using i by (rule rows)
    have b: "visible_len (content_lines ! i) \<le> w \<longrightarrow>
                     visible_len (content_lines ! i)
                       + int (nat (w - visible_len (content_lines ! i))) = w
                   \<and> visible_len (content_lines ! i @ ?pad i) = w
                   \<and> visible_len (?printed ! (i + 1)) = w + 6"
      by (rule impI) (rule fits [OF i])
    have c: "w < visible_len (content_lines ! i) \<longrightarrow>
                     ?printed ! (i + 1)
                       = lit ''    '' @ sgr p @ BOX_V @ C_RESET @ content_lines ! i
                           @ sgr p @ BOX_V @ C_RESET"
      by (rule impI) (rule wide [OF i])
    show "?printed ! (i + 1) = ?row i
               \<and> (visible_len (content_lines ! i) \<le> w \<longrightarrow>
                     visible_len (content_lines ! i)
                       + int (nat (w - visible_len (content_lines ! i))) = w
                   \<and> visible_len (content_lines ! i @ ?pad i) = w
                   \<and> visible_len (?printed ! (i + 1)) = w + 6)
               \<and> (w < visible_len (content_lines ! i) \<longrightarrow>
                     ?printed ! (i + 1)
                       = lit ''    '' @ sgr p @ BOX_V @ C_RESET @ content_lines ! i
                           @ sgr p @ BOX_V @ C_RESET)"
      by (rule conjI [OF a conjI [OF b c]])
  qed
  show ?thesis
    by (rule exI [of _ ?printed]) (rule conjI [OF d conjI [OF len conjI [OF top conjI [OF bottom each]]]])
qed

theorem draw_box_rows_fill_width_witness:
  "\<exists>printed. draw_box [lit ''ab'', lit ''abcdef''] (Some 3) C_CYAN = Inr printed
      \<and> printed ! 1 = lit ''    '' @ C_CYAN @ BOX_V @ C_RESET @ lit ''ab '' @ C_CYAN @ BOX_V @ C_RESET
      \<and> visible_len (lit ''ab '') = 3
      \<and> visible_len (printed ! 1) = 9
      \<and> printed ! 2 = lit ''    '' @ C_CYAN @ BOX_V @ C_RESET @ lit ''abcdef'' @ C_CYAN @ BOX_V @ C_RESET"
proof -
  let ?ls = "[lit ''ab'', lit ''abcdef'']"
  have v: "visible_len (lit ''ab'') = 2" "visible_len (lit ''abcdef'') = 6"
    by (simp_all add: visible_len_def lit_def sgr_match_not_ESC)
  have w: "resolve_width ?ls (Some 3) = Inr 3"
    by (simp add: resolve_width_def)
  have color: "list_all is_param (lit ''96'')"
    by (simp add: lit_def is_param_def)
  have cyan: "sgr (lit ''96'') = C_CYAN"
    by (simp add: sgr_def C_CYAN_def lit_def)
  from draw_box_rows_fill_width [OF w color]
  obtain printed where p: "draw_box ?ls (Some 3) C_CYAN = Inr printed"
    and rows: "\<forall>i < length ?ls.
                 printed ! (i + 1)
                   = lit ''    '' @ C_CYAN @ BOX_V @ C_RESET @ ?ls ! i
                       @ replicate (nat (3 - visible_len (?ls ! i))) 32
                       @ C_CYAN @ BOX_V @ C_RESET
               \<and> (visible_len (?ls ! i) \<le> 3 \<longrightarrow>
                     visible_len (?ls ! i) + int (nat (3 - visible_len (?ls ! i))) = 3
                   \<and> visible_len (?ls ! i @ replicate (nat (3 - visible_len (?ls ! i))) 32) = 3
                   \<and> visible_len (printed ! (i + 1)) = 3 + 6)
               \<and> (3 < visible_len (?ls ! i) \<longrightarrow>
                     printed ! (i + 1)
                       = lit ''    '' @ C_CYAN @ BOX_V @ C_RESET @ ?ls ! i @ C_CYAN @ BOX_V @ C_RESET)"
    unfolding cyan by blast
  have i0: "(0::nat) < length ?ls" and i1: "(1::nat) < length ?ls" by simp_all
  note r0 = rows [rule_format, OF i0]
  note r1 = rows [rule_format, OF i1]
  have n0: "?ls ! 0 = lit ''ab''" and n1: "?ls ! 1 = lit ''abcdef''" by simp_all
  have f0: "visible_len (?ls ! 0) \<le> 3" unfolding n0 v by simp
  have f1: "3 < visible_len (?ls ! 1)" unfolding n1 v by simp
  have a: "printed ! 1 = lit ''    '' @ C_CYAN @ BOX_V @ C_RESET @ lit ''ab '' @ C_CYAN @ BOX_V @ C_RESET"
    using r0 [THEN conjunct1] unfolding n0 v by (simp add: lit_def)
  have b: "visible_len (lit ''ab '') = 3"
    using r0 [THEN conjunct2, THEN conjunct1, rule_format, OF f0, THEN conjunct2, THEN conjunct1]
    unfolding n0 v by (simp add: lit_def)
  have c: "visible_len (printed ! 1) = 9"
    using r0 [THEN conjunct2, THEN conjunct1, rule_format, OF f0, THEN conjunct2, THEN conjunct2]
    by simp
  have d: "printed ! 2 = lit ''    '' @ C_CYAN @ BOX_V @ C_RESET @ lit ''abcdef'' @ C_CYAN @ BOX_V @ C_RESET"
    using r1 [THEN conjunct2, THEN conjunct2, rule_format, OF f1] unfolding n1
    by (simp add: numeral_2_eq_2)
  show ?thesis
    by (rule exI [of _ printed]) (rule conjI [OF p conjI [OF a conjI [OF b conjI [OF c d]]]])
qed

lemma concat_blocks_length:
  "(\<forall>j < i. length (f j) = 2) \<Longrightarrow> length (concat (map f [0..<i])) = 2 * i"
  by (induction i) simp_all

lemma upt_split_at: "i < n \<Longrightarrow> [0..<n] = [0..<i] @ i # [Suc i..<n]"
proof -
  assume "i < n"
  then have "[0..<n] = [0..<i] @ [i..<n]"
    using upt_add_eq_append [of 0 i "n - i"] by simp
  moreover have "[i..<n] = i # [Suc i..<n]"
    using \<open>i < n\<close> by (rule upt_conv_Cons)
  ultimately show ?thesis by simp
qed

lemma concat_blocks_nth:
  assumes "\<forall>j < i. length (f j) = 2" and "i < n" and "f i = x # rest"
  shows "concat (map f [0..<n]) ! (2 * i) = x"
proof -
  have "concat (map f [0..<n]) = concat (map f [0..<i]) @ (x # rest) @ concat (map f [Suc i..<n])"
    using assms(3) by (simp add: upt_split_at [OF assms(2)])
  then show ?thesis
    using concat_blocks_length [OF assms(1)] by (simp add: nth_append)
qed

lemma concat_blocks_bound:
  assumes "\<forall>j < i. length (f j) = 2" and "i < n" and "f i = x # rest"
  shows "2 * i < length (concat (map f [0..<n]))"
proof -
  have "concat (map f [0..<n]) = concat (map f [0..<i]) @ (x # rest) @ concat (map f [Suc i..<n])"
    using assms(3) by (simp add: upt_split_at [OF assms(2)])
  then show ?thesis
    using concat_blocks_length [OF assms(1)] by simp
qed

lemma bucket_lines_length:
  "j < i \<Longrightarrow> i < length buckets \<Longrightarrow> length (bucket_lines buckets highlight_idx j) = 2"
  by (simp add: bucket_lines_def)

lemma visible_len_empty_mark: "visible_len (C_DIM @ lit ''empty'' @ C_RESET) = 5"
  by (simp add: visible_len_def C_DIM_def C_RESET_def lit_def is_param_def)

lemma content_cell_empty:
  "content_cell [] = lit '' '' @ C_DIM @ lit ''empty'' @ C_RESET @ replicate 38 32"
  by (simp add: content_cell_def visible_len_empty_mark content_w_def str_mul_space)

lemma content_cell_items:
  "bucket \<noteq> [] \<Longrightarrow> content_cell bucket =
     lit '' '' @ join (lit '', '') bucket
       @ replicate (nat (content_w - visible_len (join (lit '', '') bucket) - 1)) 32"
  by (simp add: content_cell_def str_mul_space Let_def max_def)

lemma strip_content_cell_empty:
  "strip_ansi (content_cell []) = lit '' empty'' @ replicate 38 32"
proof -
  have "strip_ansi (content_cell []) = 32 # strip_ansi (C_DIM @ lit ''empty'' @ C_RESET @ replicate 38 32)"
    unfolding content_cell_empty by (simp add: lit_def sgr_match_not_ESC)
  also have "\<dots> = 32 # strip_ansi (lit ''empty'' @ C_RESET @ replicate 38 32)"
    by (simp only: strip_ansi_C_DIM)
  also have "\<dots> = 32 # lit ''empty'' @ strip_ansi (C_RESET @ replicate 38 32)"
    by (simp add: lit_def sgr_match_not_ESC)
  also have "\<dots> = 32 # lit ''empty'' @ replicate 38 32"
    by (simp only: strip_ansi_C_RESET strip_ansi_spaces)
  finally show ?thesis by (simp add: lit_def)
qed

text \<open>
  Claim C8. The row of bucket \<open>i\<close> is the line \<open>2 * i + 1\<close> of what \<open>draw_buckets\<close> prints.
  Its content cell, for a bucket with no items, holds the placeholder \<open>empty\<close> between
  \<open>C_DIM\<close> and \<open>C_RESET\<close>, after one space and before 38 more, so that its visible width
  is the content column's 44; for a bucket with items it holds the items joined by a
  comma and a space, padded in the same way.
\<close>

theorem draw_buckets_content_cell:
  assumes "i < length buckets"
  shows "draw_buckets buckets highlight_idx ! (2 * i + 1) =
           lit ''    '' @ C_CYAN @ BOX_V @ C_RESET @ idx_str buckets highlight_idx i
             @ C_CYAN @ BOX_V @ C_RESET @ content_cell (buckets ! i) @ C_CYAN @ BOX_V @ C_RESET
         \<and> (buckets ! i = [] \<longrightarrow>
               content_cell (buckets ! i)
                 = lit '' '' @ C_DIM @ lit ''empty'' @ C_RESET @ replicate 38 32
             \<and> strip_ansi (content_cell (buckets ! i)) = lit '' empty'' @ replicate 38 32
             \<and> visible_len (content_cell (buckets ! i)) = content_w)
         \<and> (buckets ! i \<noteq> [] \<longrightarrow>
               content_cell (buckets ! i)
                 = lit '' '' @ join (lit '', '') (buckets ! i)
                     @ replicate (nat (content_w - visible_len (join (lit '', '') (buckets ! i)) - 1)) 32)"
proof -
  let ?f = "bucket_lines buckets highlight_idx"
  let ?row = "lit ''    '' @ C_CYAN @ BOX_V @ C_RESET @ idx_str buckets highlight_idx i
             @ C_CYAN @ BOX_V @ C_RESET @ content_cell (buckets ! i) @ C_CYAN @ BOX_V @ C_RESET"
  have blocks: "\<forall>j < i. length (?f j) = 2"
    using assms by (simp add: bucket_lines_length)
  obtain rest where here: "?f i = ?row # rest"
    by (simp add: bucket_lines_def)
  have "concat (map ?f [0..<length buckets]) ! (2 * i) = ?row"
    using blocks assms here by (rule concat_blocks_nth)
  moreover have "2 * i < length (concat (map ?f [0..<length buckets]))"
    using blocks assms here by (rule concat_blocks_bound)
  ultimately have row: "draw_buckets buckets highlight_idx ! (2 * i + 1) = ?row"
    unfolding draw_buckets_def by (simp add: nth_append)
  have width: "visible_len (content_cell []) = content_w"
    by (simp add: visible_len_def strip_content_cell_empty content_w_def lit_def)
  have empty: "content_cell (buckets ! i)
                 = lit '' '' @ C_DIM @ lit ''empty'' @ C_RESET @ replicate 38 32
             \<and> strip_ansi (content_cell (buckets ! i)) = lit '' empty'' @ replicate 38 32
             \<and> visible_len (content_cell (buckets ! i)) = content_w"
    if "buckets ! i = []"
    unfolding that using content_cell_empty strip_content_cell_empty width by (intro conjI)
  have items: "content_cell (buckets ! i)
                 = lit '' '' @ join (lit '', '') (buckets ! i)
                     @ replicate (nat (content_w - visible_len (join (lit '', '') (buckets ! i)) - 1)) 32"
    if "buckets ! i \<noteq> []"
    using that by (rule content_cell_items)
  have B: "buckets ! i = [] \<longrightarrow>
               content_cell (buckets ! i)
                 = lit '' '' @ C_DIM @ lit ''empty'' @ C_RESET @ replicate 38 32
             \<and> strip_ansi (content_cell (buckets ! i)) = lit '' empty'' @ replicate 38 32
             \<and> visible_len (content_cell (buckets ! i)) = content_w"
    by (rule impI) (rule empty)
  have C: "buckets ! i \<noteq> [] \<longrightarrow>
               content_cell (buckets ! i)
                 = lit '' '' @ join (lit '', '') (buckets ! i)
                     @ replicate (nat (content_w - visible_len (join (lit '', '') (buckets ! i)) - 1)) 32"
    by (rule impI) (rule items)
  show ?thesis
    by (rule conjI [OF row conjI [OF B C]])
qed

theorem draw_buckets_content_cell_witness:
  "strip_ansi (content_cell ([[lit ''Cat'', lit ''Act''], []] ! 1)) = lit '' empty'' @ replicate 38 32
   \<and> visible_len (content_cell ([[lit ''Cat'', lit ''Act''], []] ! 1)) = 44
   \<and> content_cell ([[lit ''Cat'', lit ''Act''], []] ! 0) = lit '' Cat, Act'' @ replicate 35 32"
proof -
  let ?b = "[[lit ''Cat'', lit ''Act''], []] :: pystr list list"
  have v: "visible_len (lit ''Cat, Act'') = 8"
    by (simp add: visible_len_def lit_def sgr_match_not_ESC)
  have j: "join (lit '', '') [lit ''Cat'', lit ''Act''] = lit ''Cat, Act''"
    by (simp add: lit_def)
  have l1: "(1::nat) < length ?b" by simp
  have e1: "?b ! 1 = []" by simp
  note t1 = draw_buckets_content_cell [OF l1, of None]
  note c1 = t1 [THEN conjunct2, THEN conjunct1, rule_format, OF e1]
  have a: "strip_ansi (content_cell (?b ! 1)) = lit '' empty'' @ replicate 38 32"
    by (rule c1 [THEN conjunct2, THEN conjunct1])
  have "visible_len (content_cell (?b ! 1)) = content_w"
    by (rule c1 [THEN conjunct2, THEN conjunct2])
  then have b: "visible_len (content_cell (?b ! 1)) = 44"
    by (simp only: content_w_def)
  have l0: "(0::nat) < length ?b" by simp
  have e0: "?b ! 0 \<noteq> []" by simp
  note t0 = draw_buckets_content_cell [OF l0, of None]
  note c0 = t0 [THEN conjunct2, THEN conjunct2, rule_format, OF e0]
  have n0: "?b ! 0 = [lit ''Cat'', lit ''Act'']" by simp
  have c: "content_cell (?b ! 0) = lit '' Cat, Act'' @ replicate 35 32"
    unfolding c0 unfolding n0 j v content_w_def by (simp add: lit_def)
  show ?thesis
    by (rule conjI [OF a conjI [OF b c]])
qed





















text \<open>
  Claim C3. The source pads the shorter input with spaces before it compares, and then
  adds the difference of the lengths: a character beyond the shorter length is compared
  with a padding space, and counted once there and once more in the difference. For
  \<open>ab\<close> and \<open>abcd\<close> the source reports 4 where the claim's count is 2.
\<close>

theorem char_diffs_counts_excess_twice:
  "char_diffs (lit ''ab'') (lit ''abcd'') = 4 \<and> spec_char_diffs (lit ''ab'') (lit ''abcd'') = 2"
  by (simp add: char_diffs_def padded_def ljust_def str_mul_def spec_char_diffs_def lit_def
        upt_rec [of 0] upt_rec [of 1] numeral_2_eq_2)

lemma sum_ones_differing:
  "sum_list (concat (map (\<lambda>(a, b). if a \<noteq> b then [1] else []) zs))
     = int (length (filter (\<lambda>(a, b). a \<noteq> b) zs))"
  by (induction zs) auto

lemma differing_positions:
  "length (filter (\<lambda>(a, b). a \<noteq> b) (zip xs ys))
     = card {i. i < min (length xs) (length ys) \<and> xs ! i \<noteq> ys ! i}"
proof -
  have "{i. i < length (zip xs ys) \<and> (case zip xs ys ! i of (a, b) \<Rightarrow> a \<noteq> b)}
          = {i. i < min (length xs) (length ys) \<and> xs ! i \<noteq> ys ! i}"
    by auto
  then show ?thesis by (simp only: length_filter_conv_card)
qed

lemma bit_diffs_total_card:
  "bit_diffs_total xs ys = int (card {i. i < min (length xs) (length ys) \<and> xs ! i \<noteq> ys ! i})"
  unfolding bit_diffs_total_def by (simp only: sum_ones_differing differing_positions)

lemma hex_fold:
  "fold (\<lambda>(ca, cb) (hex_diff, hex_diffs).
             if ca = cb then (hex_diff @ dot_mark, hex_diffs)
             else (hex_diff @ C_RED @ lit ''^'' @ C_RESET, hex_diffs + 1)) zs (d, n)
     = (d @ concat (map mark zs), n + int (length (filter (\<lambda>(a, b). a \<noteq> b) zs)))"
  by (induction zs arbitrary: d n) (auto simp: mark_def)

lemma hex_comparison_eq:
  "hex_comparison xs ys
     = (concat (map mark (zip xs ys)),
        int (card {i. i < min (length xs) (length ys) \<and> xs ! i \<noteq> ys ! i}))"
  unfolding hex_comparison_def by (simp only: hex_fold differing_positions) simp

lemma marks_identical: "concat (map mark (zip xs xs)) = concat (replicate (length xs) dot_mark)"
  by (induction xs) (simp_all add: mark_def)

lemma no_caret_dot_mark: "94 \<notin> set dot_mark"
  by (simp add: dot_mark_def C_DIM_def C_RESET_def lit_def)

lemma count_caret_dot_mark: "count_list dot_mark 94 = 0"
  by (simp add: dot_mark_def C_DIM_def C_RESET_def lit_def)

lemma count_caret_mark: "count_list (C_RED @ lit ''^'' @ C_RESET) 94 = 1"
  by (simp add: C_RED_def C_RESET_def lit_def)

lemma count_list_append: "count_list (xs @ ys) c = count_list xs c + count_list ys c"
  by (induction xs) simp_all

lemma bits_loop_carets:
  "\<forall>i \<in> set idxs. i < length b_a \<and> i < length b_b \<Longrightarrow>
     \<exists>ca cb line. bits_loop b_a b_b idxs (c_a, c_b, l) = Inr (ca, cb, line)
        \<and> count_list line 94 = count_list l 94 + length (filter (\<lambda>i. b_a ! i \<noteq> b_b ! i) idxs)"
proof (induction idxs arbitrary: c_a c_b l)
  case Nil
  show ?case by simp
next
  case (Cons i rest)
  then have r: "\<forall>i \<in> set rest. i < length b_a \<and> i < length b_b" and i: "i < length b_a" "i < length b_b"
    by simp_all
  note IH = Cons.IH [OF r]
  show ?case
  proof (cases "b_a ! i = b_b ! i")
    case True
    show ?thesis
    proof (cases "(i + 1) mod 8 = 0 \<and> int i < int SHOW_BITS - 1")
      case sep: True
      from IH [of "c_a @ C_DIM @ [b_a ! i] @ C_RESET @ lit '' ''"
                  "c_b @ C_DIM @ [b_b ! i] @ C_RESET @ lit '' ''" "l @ dot_mark @ lit '' ''"]
      show ?thesis using True sep i
        by (simp add: count_list_append count_caret_dot_mark lit_def)
    next
      case nosep: False
      from IH [of "c_a @ C_DIM @ [b_a ! i] @ C_RESET"
                  "c_b @ C_DIM @ [b_b ! i] @ C_RESET" "l @ dot_mark"]
      show ?thesis using True nosep i
        by (auto simp add: count_list_append count_caret_dot_mark)
    qed
  next
    case False
    show ?thesis
    proof (cases "(i + 1) mod 8 = 0 \<and> int i < int SHOW_BITS - 1")
      case sep: True
      from IH [of "c_a @ C_CYAN @ C_BOLD @ [b_a ! i] @ C_RESET @ lit '' ''"
                  "c_b @ C_RED @ C_BOLD @ [b_b ! i] @ C_RESET @ lit '' ''"
                  "l @ C_RED @ lit ''^'' @ C_RESET @ lit '' ''"]
      show ?thesis using False sep i count_caret_mark
        by (simp add: count_list_append lit_def)
    next
      case nosep: False
      from IH [of "c_a @ C_CYAN @ C_BOLD @ [b_a ! i] @ C_RESET"
                  "c_b @ C_RED @ C_BOLD @ [b_b ! i] @ C_RESET"
                  "l @ C_RED @ lit ''^'' @ C_RESET"]
      show ?thesis using False nosep i count_caret_mark
        by (auto simp add: count_list_append)
    qed
  qed
qed

lemma filter_upt_card: "length (filter P [0..<n]) = card {i. i < n \<and> P i}"
proof -
  have "{i. i < length [0..<n] \<and> P ([0..<n] ! i)} = {i. i < n \<and> P i}" by auto
  then show ?thesis by (simp only: length_filter_conv_card)
qed

lemma binary_comparison_result:
  assumes "64 \<le> length b_a" and "64 \<le> length b_b"
  shows "\<exists>ca cb line. binary_comparison b_a b_b =
           Inr \<lparr>colored_a = ca, colored_b = cb, bit_diff_line = line,
                diffs_total = bit_diffs_total b_a b_b,
                summary = info (str_int (bit_diffs_total b_a b_b) @ lit '' of 256 total bits flipped (''
                   @ str_int (round_half_even (of_int (bit_diffs_total b_a b_b) / 256 * 100)) @ lit ''%).'')\<rparr>
          \<and> count_list line 94 = card {i. i < 64 \<and> b_a ! i \<noteq> b_b ! i}"
proof -
  have "\<forall>i \<in> set [0..<SHOW_BITS]. i < length b_a \<and> i < length b_b"
    using assms by (simp add: SHOW_BITS_def)
  from bits_loop_carets [OF this, of "[]" "[]" "[]"]
  obtain ca cb line where l: "bits_loop b_a b_b [0..<SHOW_BITS] ([], [], []) = Inr (ca, cb, line)"
    and c: "count_list line 94 = length (filter (\<lambda>i. b_a ! i \<noteq> b_b ! i) [0..<SHOW_BITS])"
    by auto
  from c have "count_list line 94 = card {i. i < 64 \<and> b_a ! i \<noteq> b_b ! i}"
    by (simp only: filter_upt_card SHOW_BITS_def)
  moreover have "binary_comparison b_a b_b =
           Inr \<lparr>colored_a = ca, colored_b = cb, bit_diff_line = line,
                diffs_total = bit_diffs_total b_a b_b,
                summary = info (str_int (bit_diffs_total b_a b_b) @ lit '' of 256 total bits flipped (''
                   @ str_int (round_half_even (of_int (bit_diffs_total b_a b_b) / 256 * 100)) @ lit ''%).'')\<rparr>"
    unfolding binary_comparison_def Let_def l by simp
  ultimately show ?thesis by blast
qed

text \<open>
  Claim C4. For two bit strings of 256 bits the comparison succeeds; the reported
  mismatch count is the number of all the 256 positions at which the strings differ,
  and the summary line gives that count out of 256 with its percentage. Only the marker
  line depends on the display cap: its carets are as many as the differing positions
  among the first 64.
\<close>

theorem bit_summary_counts_full_sequence:
  assumes "length b_a = 256" and "length b_b = 256"
  shows "\<exists>v. binary_comparison b_a b_b = Inr v
     \<and> diffs_total v = int (card {i. i < 256 \<and> b_a ! i \<noteq> b_b ! i})
     \<and> summary v = info (str_int (diffs_total v) @ lit '' of 256 total bits flipped (''
                          @ str_int (round_half_even (of_int (diffs_total v) / 256 * 100))
                          @ lit ''%).'')
     \<and> count_list (bit_diff_line v) 94 = card {i. i < 64 \<and> b_a ! i \<noteq> b_b ! i}"
proof -
  have "64 \<le> length b_a" "64 \<le> length b_b" using assms by simp_all
  from binary_comparison_result [OF this]
  obtain ca cb line where v: "binary_comparison b_a b_b =
           Inr \<lparr>colored_a = ca, colored_b = cb, bit_diff_line = line,
                diffs_total = bit_diffs_total b_a b_b,
                summary = info (str_int (bit_diffs_total b_a b_b) @ lit '' of 256 total bits flipped (''
                   @ str_int (round_half_even (of_int (bit_diffs_total b_a b_b) / 256 * 100)) @ lit ''%).'')\<rparr>"
    and c: "count_list line 94 = card {i. i < 64 \<and> b_a ! i \<noteq> b_b ! i}"
    by blast
  have t: "bit_diffs_total b_a b_b = int (card {i. i < 256 \<and> b_a ! i \<noteq> b_b ! i})"
    using assms by (simp add: bit_diffs_total_card)
  show ?thesis
    unfolding v using c t by simp
qed

theorem bit_summary_counts_full_sequence_witness:
  "\<exists>v. binary_comparison (replicate 256 48) (replicate 126 48 @ replicate 130 49) = Inr v
     \<and> diffs_total v = 130
     \<and> summary v = info (lit ''130 of 256 total bits flipped (51%).'')
     \<and> count_list (bit_diff_line v) 94 = 0"
proof -
  let ?a = "replicate 256 (48::nat)" and ?b = "replicate 126 (48::nat) @ replicate 130 49"
  have la: "length ?a = 256" and lb: "length ?b = 256" by simp_all
  have "{i. i < 256 \<and> ?a ! i \<noteq> ?b ! i} = {126..<256}"
    by (auto simp: nth_append)
  then have all: "card {i. i < 256 \<and> ?a ! i \<noteq> ?b ! i} = 130" by simp
  have "{i. i < 64 \<and> ?a ! i \<noteq> ?b ! i} = {}"
    by (auto simp: nth_append)
  then have shown: "card {i. i < 64 \<and> ?a ! i \<noteq> ?b ! i} = 0" by simp
  have s: "str_int 130 = lit ''130''" "str_int 51 = lit ''51''"
    by (simp_all add: str_int_def str_nat.simps lit_def)
  have "\<lfloor>130 / 256 * 100 :: rat\<rfloor> = 50"
    by (rule floor_unique) simp_all
  then have "round_half_even (130 / 256 * 100) = 51"
    unfolding round_half_even_def Let_def by simp
  then have r: "round_half_even (of_int 130 / 256 * 100) = 51" by simp
  from bit_summary_counts_full_sequence [OF la lb]
  obtain v where bc: "binary_comparison ?a ?b = Inr v"
    and d: "diffs_total v = int (card {i. i < 256 \<and> ?a ! i \<noteq> ?b ! i})"
    and sm: "summary v = info (str_int (diffs_total v) @ lit '' of 256 total bits flipped (''
                          @ str_int (round_half_even (of_int (diffs_total v) / 256 * 100))
                          @ lit ''%).'')"
    and c: "count_list (bit_diff_line v) 94 = card {i. i < 64 \<and> ?a ! i \<noteq> ?b ! i}"
    by blast
  from d have d': "diffs_total v = 130" by (simp only: all of_nat_numeral)
  have "summary v = info (lit ''130'' @ lit '' of 256 total bits flipped ('' @ lit ''51'' @ lit ''%).'')"
    unfolding sm d' r s ..
  then have sm': "summary v = info (lit ''130 of 256 total bits flipped (51%).'')"
    by (simp add: lit_def)
  from c have c': "count_list (bit_diff_line v) 94 = 0" by (simp only: shown)
  from bc d' sm' c' show ?thesis by blast
qed

lemma bits_loop_marker_line:
  "\<forall>i \<in> set idxs. i < length b_a \<and> i < length b_b \<Longrightarrow>
     \<exists>ca cb. bits_loop b_a b_b idxs (c_a, c_b, l)
                = Inr (ca, cb, l @ concat (map (bit_mark b_a b_b) idxs))"
proof (induction idxs arbitrary: c_a c_b l)
  case Nil
  show ?case by simp
next
  case (Cons i rest)
  then have r: "\<forall>i \<in> set rest. i < length b_a \<and> i < length b_b" and i: "i < length b_a" "i < length b_b"
    by simp_all
  note IH = Cons.IH [OF r]
  show ?case
  proof (cases "b_a ! i = b_b ! i")
    case True
    show ?thesis
    proof (cases "(i + 1) mod 8 = 0 \<and> int i < int SHOW_BITS - 1")
      case sep: True
      from IH [of "c_a @ C_DIM @ [b_a ! i] @ C_RESET @ lit '' ''"
                  "c_b @ C_DIM @ [b_b ! i] @ C_RESET @ lit '' ''" "l @ dot_mark @ lit '' ''"]
      show ?thesis using True sep i
        by (simp add: bit_mark_def gap_def)
    next
      case nosep: False
      from IH [of "c_a @ C_DIM @ [b_a ! i] @ C_RESET"
                  "c_b @ C_DIM @ [b_b ! i] @ C_RESET" "l @ dot_mark"]
      show ?thesis using True nosep i
        by (auto simp add: bit_mark_def gap_def)
    qed
  next
    case False
    show ?thesis
    proof (cases "(i + 1) mod 8 = 0 \<and> int i < int SHOW_BITS - 1")
      case sep: True
      from IH [of "c_a @ C_CYAN @ C_BOLD @ [b_a ! i] @ C_RESET @ lit '' ''"
                  "c_b @ C_RED @ C_BOLD @ [b_b ! i] @ C_RESET @ lit '' ''"
                  "l @ C_RED @ lit ''^'' @ C_RESET @ lit '' ''"]
      show ?thesis using False sep i
        by (simp add: bit_mark_def gap_def)
    next
      case nosep: False
      from IH [of "c_a @ C_CYAN @ C_BOLD @ [b_a ! i] @ C_RESET"
                  "c_b @ C_RED @ C_BOLD @ [b_b ! i] @ C_RESET"
                  "l @ C_RED @ lit ''^'' @ C_RESET"]
      show ?thesis using False nosep i
        by (auto simp add: bit_mark_def gap_def)
    qed
  qed
qed

lemma binary_comparison_marker_line:
  assumes "64 \<le> length b_a" and "64 \<le> length b_b"
  shows "\<exists>v. binary_comparison b_a b_b = Inr v
           \<and> diffs_total v = bit_diffs_total b_a b_b
           \<and> bit_diff_line v = concat (map (bit_mark b_a b_b) [0..<64])"
proof -
  have "\<forall>i \<in> set [0..<SHOW_BITS]. i < length b_a \<and> i < length b_b"
    using assms by (simp add: SHOW_BITS_def)
  from bits_loop_marker_line [OF this, of "[]" "[]" "[]"]
  obtain ca cb where l: "bits_loop b_a b_b [0..<SHOW_BITS] ([], [], [])
        = Inr (ca, cb, concat (map (bit_mark b_a b_b) [0..<SHOW_BITS]))"
    by auto
  show ?thesis
    unfolding binary_comparison_def Let_def l by (simp add: SHOW_BITS_def)
qed

lemma eight_dots: "concat (map (\<lambda>i. dot_mark @ gap i) [0..<64])
     = join (lit '' '') (replicate 8 (concat (replicate 8 dot_mark)))"
  by code_simp

lemma identical_marker_line:
  "concat (map (bit_mark a a) [0..<64])
     = join (lit '' '') (replicate 8 (concat (replicate 8 dot_mark)))"
proof -
  have "bit_mark a a = (\<lambda>i. dot_mark @ gap i)"
    by (simp add: bit_mark_def fun_eq_iff)
  then show ?thesis by (simp only: eight_dots)
qed

text \<open>
  Claim C5. For sequences of equal length the mismatch count of the hexadecimal
  comparison and that of the bit comparison are the number of positions at which the
  two differ, and each marker line holds, position by position, the dim dot where the
  two agree and the caret where they differ (the bit view over its first 64 positions,
  a space after every eighth but the last). For two identical sequences the count is
  0; the marker line of the hexadecimal comparison is the dim dot once per position,
  and that of the bit comparison is eight groups of eight dim dots with a space between
  the groups; neither holds a caret.
\<close>

theorem mismatch_count_counts_differing_positions:
  assumes "length a = length b"
  shows "snd (hex_comparison a b) = int (card {i. i < length a \<and> a ! i \<noteq> b ! i})
     \<and> bit_diffs_total a b = int (card {i. i < length a \<and> a ! i \<noteq> b ! i})
     \<and> hex_comparison a a = (concat (replicate (length a) dot_mark), 0)
     \<and> 94 \<notin> set (fst (hex_comparison a a))
     \<and> bit_diffs_total a a = 0
     \<and> (64 \<le> length a \<longrightarrow>
          (\<exists>v. binary_comparison a a = Inr v \<and> diffs_total v = 0
              \<and> count_list (bit_diff_line v) 94 = 0
              \<and> bit_diff_line v
                   = join (lit '' '') (replicate 8 (concat (replicate 8 dot_mark)))))
     \<and> (64 \<le> length a \<longrightarrow>
          (\<exists>v. binary_comparison a b = Inr v
              \<and> diffs_total v = int (card {i. i < length a \<and> a ! i \<noteq> b ! i})
              \<and> bit_diff_line v = concat (map (bit_mark a b) [0..<64])))
     \<and> fst (hex_comparison a b) = concat (map mark (zip a b))"
proof -
  have 1: "snd (hex_comparison a b) = int (card {i. i < length a \<and> a ! i \<noteq> b ! i})"
    using assms by (simp add: hex_comparison_eq)
  have 2: "bit_diffs_total a b = int (card {i. i < length a \<and> a ! i \<noteq> b ! i})"
    using assms by (simp add: bit_diffs_total_card)
  have 3: "hex_comparison a a = (concat (replicate (length a) dot_mark), 0)"
    by (simp add: hex_comparison_eq marks_identical)
  have 4: "94 \<notin> set (fst (hex_comparison a a))"
    unfolding 3 using no_caret_dot_mark by simp
  have 5: "bit_diffs_total a a = 0"
    by (simp add: bit_diffs_total_card)
  have 6: "64 \<le> length a \<longrightarrow>
          (\<exists>v. binary_comparison a a = Inr v \<and> diffs_total v = 0
              \<and> count_list (bit_diff_line v) 94 = 0
              \<and> bit_diff_line v
                   = join (lit '' '') (replicate 8 (concat (replicate 8 dot_mark))))"
  proof
    assume l: "64 \<le> length a"
    from binary_comparison_marker_line [OF l l]
    obtain v where v: "binary_comparison a a = Inr v"
      and d: "diffs_total v = bit_diffs_total a a"
      and m: "bit_diff_line v = concat (map (bit_mark a a) [0..<64])"
      by blast
    from binary_comparison_result [OF l l] v
    have c: "count_list (bit_diff_line v) 94 = card {i. i < 64 \<and> a ! i \<noteq> a ! i}"
      by auto
    have "diffs_total v = 0" using d 5 by simp
    moreover have "count_list (bit_diff_line v) 94 = 0" using c by simp
    moreover have "bit_diff_line v = join (lit '' '') (replicate 8 (concat (replicate 8 dot_mark)))"
      using m by (simp only: identical_marker_line)
    ultimately show "\<exists>v. binary_comparison a a = Inr v \<and> diffs_total v = 0
              \<and> count_list (bit_diff_line v) 94 = 0
              \<and> bit_diff_line v
                   = join (lit '' '') (replicate 8 (concat (replicate 8 dot_mark)))"
      using v by blast
  qed
  have 7: "64 \<le> length a \<longrightarrow>
          (\<exists>v. binary_comparison a b = Inr v
              \<and> diffs_total v = int (card {i. i < length a \<and> a ! i \<noteq> b ! i})
              \<and> bit_diff_line v = concat (map (bit_mark a b) [0..<64]))"
  proof
    assume l: "64 \<le> length a"
    then have l': "64 \<le> length b" using assms by simp
    from binary_comparison_marker_line [OF l l'] 2
    show "\<exists>v. binary_comparison a b = Inr v
              \<and> diffs_total v = int (card {i. i < length a \<and> a ! i \<noteq> b ! i})
              \<and> bit_diff_line v = concat (map (bit_mark a b) [0..<64])"
      by auto
  qed
  have 8: "fst (hex_comparison a b) = concat (map mark (zip a b))"
    by (simp add: hex_comparison_eq)
  show ?thesis
    by (rule conjI [OF 1 conjI [OF 2 conjI [OF 3 conjI [OF 4 conjI [OF 5 conjI [OF 6 conjI [OF 7 8]]]]]]])
qed

theorem mismatch_count_counts_differing_positions_witness:
  "snd (hex_comparison (lit ''a3f'') (lit ''a4f''))
      = int (card {i. i < length (lit ''a3f'') \<and> lit ''a3f'' ! i \<noteq> lit ''a4f'' ! i})
   \<and> snd (hex_comparison (lit ''a3f'') (lit ''a4f'')) = 1
   \<and> hex_comparison (lit ''a3'') (lit ''a3'') = (dot_mark @ dot_mark, 0)
   \<and> (\<exists>v. binary_comparison (replicate 64 48) (replicate 64 48) = Inr v \<and> diffs_total v = 0
          \<and> bit_diff_line v = join (lit '' '') (replicate 8 (concat (replicate 8 dot_mark))))"
proof -
  have l: "length (lit ''a3f'') = length (lit ''a4f'')" by (simp add: lit_def)
  note t = mismatch_count_counts_differing_positions [OF l]
  have a: "snd (hex_comparison (lit ''a3f'') (lit ''a4f''))
      = int (card {i. i < length (lit ''a3f'') \<and> lit ''a3f'' ! i \<noteq> lit ''a4f'' ! i})"
    by (rule t [THEN conjunct1])
  have b: "snd (hex_comparison (lit ''a3f'') (lit ''a4f'')) = 1"
    by (simp add: hex_comparison_def lit_def)
  have l2: "length (lit ''a3'') = length (lit ''a3'')" by simp
  from mismatch_count_counts_differing_positions [OF l2]
  have "hex_comparison (lit ''a3'') (lit ''a3'') = (concat (replicate (length (lit ''a3'')) dot_mark), 0)"
    by (rule conjunct1 [OF conjunct2 [OF conjunct2]])
  then have c: "hex_comparison (lit ''a3'') (lit ''a3'') = (dot_mark @ dot_mark, 0)"
    by (simp add: lit_def numeral_2_eq_2)
  have l3: "length (replicate 64 (48::nat)) = length (replicate 64 (48::nat))" by simp
  have l4: "64 \<le> length (replicate 64 (48::nat))" by simp
  note u = mismatch_count_counts_differing_positions [OF l3]
  from u [THEN conjunct2, THEN conjunct2, THEN conjunct2, THEN conjunct2, THEN conjunct2,
          THEN conjunct1, rule_format, OF l4]
  have d: "\<exists>v. binary_comparison (replicate 64 48) (replicate 64 48) = Inr v \<and> diffs_total v = 0
          \<and> bit_diff_line v = join (lit '' '') (replicate 8 (concat (replicate 8 dot_mark)))"
    by blast
  show ?thesis by (rule conjI [OF a conjI [OF b conjI [OF c d]]])
qed

end
